theory Spec2Isabelle
  imports Main "HOL-Library.Word" "HOL-Library.Monad_Syntax"
begin

unbundle bit_operations_syntax

section \<open>The allocator state\<close>

text \<open>
  The allocator of \<^verbatim>\<open>mm.c\<close> is embedded over a byte-addressed memory. Pointers
  (\<^verbatim>\<open>char *\<close>) and \<^verbatim>\<open>size_t\<close> values are 64-bit words, \<^verbatim>\<open>unsigned int\<close> and
  \<^verbatim>\<open>int\<close> values are 32-bit words (an \<^verbatim>\<open>int\<close> is read with \<open>sint\<close>), \<^verbatim>\<open>NULL\<close> is
  the pointer 0. The two globals \<^verbatim>\<open>heap_start\<close> and \<^verbatim>\<open>heap_listp\<close> are fields of the
  state, next to the memory and the break and the limit of the heap provider.
\<close>

type_synonym ptr = "64 word"
type_synonym size_t = "64 word"

record heap_state =
  mem :: "64 word \<Rightarrow> 8 word"
  heap_start :: "64 word"
  heap_listp :: "64 word"
  mem_brk :: "64 word"
  mem_max :: "64 word"

text \<open>
  Modelled from the spec: \<^verbatim>\<open>mem_sbrk\<close> of \<^verbatim>\<open>memlib.c\<close>, the sbrk-style heap provider,
  whose code is not among the sources. It appends \<open>incr\<close> bytes to a region that only
  grows and returns the first byte of the appended part, or refuses with the sentinel
  \<open>-1\<close> and changes nothing when the region would pass its limit.
\<close>

definition mem_sbrk :: "heap_state \<Rightarrow> size_t \<Rightarrow> ptr \<times> heap_state" where
  "mem_sbrk s incr =
     (if unat (mem_brk s) + unat incr \<le> unat (mem_max s)
      then (mem_brk s, s\<lparr>mem_brk := mem_brk s + incr\<rparr>)
      else (- 1, s))"

section \<open>The macros\<close>

text \<open>\<^verbatim>\<open>GET\<close> and \<^verbatim>\<open>PUT\<close> read and write the four bytes of an \<^verbatim>\<open>unsigned int\<close>,
  least significant byte first.\<close>

definition GET :: "heap_state \<Rightarrow> ptr \<Rightarrow> 32 word" where
  "GET s p =
     ucast (mem s p) OR push_bit 8 (ucast (mem s (p + 1)))
       OR push_bit 16 (ucast (mem s (p + 2))) OR push_bit 24 (ucast (mem s (p + 3)))"

definition PUT :: "heap_state \<Rightarrow> ptr \<Rightarrow> 32 word \<Rightarrow> heap_state" where
  "PUT s p val =
     s\<lparr>mem := (mem s)
        (p := ucast val,
         p + 1 := ucast (drop_bit 8 val),
         p + 2 := ucast (drop_bit 16 val),
         p + 3 := ucast (drop_bit 24 val))\<rparr>"

text \<open>\<^verbatim>\<open>PACK\<close> is used on \<^verbatim>\<open>size_t\<close> operands; the store of \<^verbatim>\<open>PUT\<close> truncates the
  result to 32 bits (\<open>ucast\<close> at each use).\<close>

definition PACK :: "size_t \<Rightarrow> size_t \<Rightarrow> size_t" where
  "PACK sz alloc = sz OR alloc"

definition PRED :: "heap_state \<Rightarrow> ptr \<Rightarrow> 32 word" where
  "PRED s bp = GET s bp"

definition SUCC :: "heap_state \<Rightarrow> ptr \<Rightarrow> 32 word" where
  "SUCC s bp = GET s (bp + 4)"

definition GET_SIZE :: "heap_state \<Rightarrow> ptr \<Rightarrow> 32 word" where
  "GET_SIZE s p = GET s p AND NOT 7"

definition GET_ALLOC :: "heap_state \<Rightarrow> ptr \<Rightarrow> 32 word" where
  "GET_ALLOC s p = GET s p AND 1"

definition GET_PREV_ALLOC :: "heap_state \<Rightarrow> ptr \<Rightarrow> 32 word" where
  "GET_PREV_ALLOC s p = GET s p AND 2"

definition HDRP :: "ptr \<Rightarrow> ptr" where
  "HDRP bp = bp - 4"

definition FTRP :: "heap_state \<Rightarrow> ptr \<Rightarrow> ptr" where
  "FTRP s bp = bp + ucast (GET_SIZE s (HDRP bp)) - 8"

definition NEXT_BLKP :: "heap_state \<Rightarrow> ptr \<Rightarrow> ptr" where
  "NEXT_BLKP s bp = bp + ucast (GET_SIZE s (bp - 4))"

definition PREV_BLKP :: "heap_state \<Rightarrow> ptr \<Rightarrow> ptr" where
  "PREV_BLKP s bp = bp - ucast (GET_SIZE s (bp - 8))"

section \<open>Offsets and size classes\<close>

definition get_addr :: "heap_state \<Rightarrow> 32 word \<Rightarrow> ptr" where
  "get_addr s offset = (if offset = 0 then 0 else ucast offset + heap_start s)"

text \<open>The loop of \<^verbatim>\<open>get_list\<close>: \<open>i\<close> is an \<^verbatim>\<open>unsigned int\<close> that doubles, \<open>count\<close> an
  \<^verbatim>\<open>int\<close>. Leaving the loop falls through to \<^verbatim>\<open>return 19\<close>.\<close>

partial_function (option) get_list_loop :: "32 word \<Rightarrow> 32 word \<Rightarrow> 32 word \<Rightarrow> 32 word option" where
  "get_list_loop sz i count =
     (if i \<le> 49152 then
        (let count = count + 1 in
         if sz \<le> i \<and> sz > i div 2 then Some (10 + count)
         else get_list_loop sz (i * 2) count)
      else Some 19)"

declare get_list_loop.simps [code]

definition get_list :: "32 word \<Rightarrow> 32 word option" where
  "get_list sz =
     (if sz \<le> 96 then Some ((sz - 16) div 8)
      else if sz > 96 \<and> sz \<le> 49152 then get_list_loop sz 192 0
      else Some 19)"

definition get_pred :: "heap_state \<Rightarrow> ptr \<Rightarrow> ptr" where
  "get_pred s bp = (let pr = PRED s bp in if pr = 0 then 0 else get_addr s pr)"

definition get_succ :: "heap_state \<Rightarrow> ptr \<Rightarrow> ptr" where
  "get_succ s bp = (let su = SUCC s bp in if su = 0 then 0 else get_addr s su)"

definition get_offset :: "heap_state \<Rightarrow> ptr \<Rightarrow> 32 word" where
  "get_offset s bp = (if bp \<noteq> 0 then ucast (bp - heap_start s) else 0)"

text \<open>The address \<^verbatim>\<open>heap_listp + (WSIZE * (i+1))\<close> of the root of list \<open>i\<close>; the product
  is computed on \<^verbatim>\<open>int\<close> and widened with its sign.\<close>

definition root_slot :: "heap_state \<Rightarrow> 32 word \<Rightarrow> ptr" where
  "root_slot s i = heap_listp s + scast (4 * (i + 1))"

section \<open>Free lists\<close>

definition add_start :: "heap_state \<Rightarrow> ptr \<Rightarrow> heap_state option" where
  "add_start s bp = do {
     i \<leftarrow> get_list (GET_SIZE s (HDRP bp));
     let prev_head = get_addr s (GET s (root_slot s i));
     let s = PUT s (root_slot s i) (get_offset s bp);
     let s = PUT s bp 0;
     let s = PUT s (bp + 4) (get_offset s prev_head);
     Some (if prev_head \<noteq> 0 then PUT s prev_head (get_offset s bp) else s)
   }"

definition del_list :: "heap_state \<Rightarrow> ptr \<Rightarrow> heap_state option" where
  "del_list s bp = do {
     i \<leftarrow> get_list (GET_SIZE s (HDRP bp));
     let pred = get_pred s bp;
     let succ = get_succ s bp;
     Some (if pred = 0 \<and> succ = 0 then PUT s (root_slot s i) 0
           else if pred = 0 \<and> succ \<noteq> 0 then
             (let s = PUT s (root_slot s i) (get_offset s succ) in PUT s succ 0)
           else if pred \<noteq> 0 \<and> succ = 0 then PUT s (pred + 4) 0
           else (let s = PUT s (pred + 4) (get_offset s succ) in PUT s succ (get_offset s pred)))
   }"

section \<open>Coalescing\<close>

text \<open>The last statement of \<^verbatim>\<open>coalesce\<close>, which clears the \<^verbatim>\<open>prev_alloc\<close> bit of the
  block after \<open>bp\<close>; \<^verbatim>\<open>place\<close> has the same statement in its split branch.\<close>

definition clear_next_prev_alloc :: "heap_state \<Rightarrow> ptr \<Rightarrow> heap_state" where
  "clear_next_prev_alloc s bp =
     PUT s (HDRP (NEXT_BLKP s bp)) (GET s (HDRP (NEXT_BLKP s bp)) AND NOT 2)"

definition coalesce :: "heap_state \<Rightarrow> ptr \<Rightarrow> (ptr \<times> heap_state) option" where
  "coalesce s bp = do {
     let prev_alloc = GET_PREV_ALLOC s (HDRP bp);
     let next_alloc = GET_ALLOC s (HDRP (NEXT_BLKP s bp));
     let sz = (ucast (GET_SIZE s (HDRP bp)) :: size_t);
     (bp, s) \<leftarrow>
       (if prev_alloc \<noteq> 0 \<and> next_alloc \<noteq> 0 then do {
          let s = PUT s (HDRP bp) (ucast (PACK sz 2));
          let s = PUT s (FTRP s bp) (ucast (PACK sz 2));
          Some (bp, s)
        }
        else if prev_alloc \<noteq> 0 \<and> \<not> next_alloc \<noteq> 0 then do {
          s \<leftarrow> del_list s (NEXT_BLKP s bp);
          let sz = sz + ucast (GET_SIZE s (HDRP (NEXT_BLKP s bp)));
          let s = PUT s (HDRP bp) (ucast (PACK sz 2));
          let s = PUT s (FTRP s bp) (ucast (PACK sz 2));
          Some (bp, s)
        }
        else if \<not> prev_alloc \<noteq> 0 \<and> next_alloc \<noteq> 0 then do {
          s \<leftarrow> del_list s (PREV_BLKP s bp);
          let sz = sz + ucast (GET_SIZE s (HDRP (PREV_BLKP s bp)));
          let s =
            (if GET_PREV_ALLOC s (HDRP (PREV_BLKP s bp)) \<noteq> 0 then
               (let s = PUT s (FTRP s bp) (ucast (PACK sz 2))
                in PUT s (HDRP (PREV_BLKP s bp)) (ucast (PACK sz 2)))
             else
               (let s = PUT s (FTRP s bp) (ucast (PACK sz 0))
                in PUT s (HDRP (PREV_BLKP s bp)) (ucast (PACK sz 0))));
          Some (PREV_BLKP s bp, s)
        }
        else do {
          s \<leftarrow> del_list s (PREV_BLKP s bp);
          s \<leftarrow> del_list s (NEXT_BLKP s bp);
          let sz = sz + ucast (GET_SIZE s (HDRP (PREV_BLKP s bp))
                                + GET_SIZE s (FTRP s (NEXT_BLKP s bp)));
          let s =
            (if GET_PREV_ALLOC s (HDRP (PREV_BLKP s bp)) \<noteq> 0 then
               (let s = PUT s (HDRP (PREV_BLKP s bp)) (ucast (PACK sz 2))
                in PUT s (FTRP s (NEXT_BLKP s bp)) (ucast (PACK sz 2)))
             else
               (let s = PUT s (HDRP (PREV_BLKP s bp)) (ucast (PACK sz 0))
                in PUT s (FTRP s (NEXT_BLKP s bp)) (ucast (PACK sz 0))));
          Some (PREV_BLKP s bp, s)
        });
     Some (bp, clear_next_prev_alloc s bp)
   }"

section \<open>Extending the heap and initialisation\<close>

definition extend_heap :: "heap_state \<Rightarrow> size_t \<Rightarrow> (ptr \<times> heap_state) option" where
  "extend_heap s words = do {
     let sz = (if words mod 2 \<noteq> 0 then (words + 1) * 4 else words * 4);
     let (bp, s) = mem_sbrk s sz;
     if bp = - 1 then Some (0, s)
     else do {
       let s =
         (if GET_PREV_ALLOC s (HDRP bp) \<noteq> 0 then
            (let s = PUT s (HDRP bp) (ucast (PACK sz 2))
             in PUT s (FTRP s bp) (ucast (PACK sz 2)))
          else
            (let s = PUT s (HDRP bp) (ucast (PACK sz 0))
             in PUT s (FTRP s bp) (ucast (PACK sz 0))));
       let s = PUT s (HDRP (NEXT_BLKP s bp)) (ucast (PACK 0 1));
       (rp, s) \<leftarrow> coalesce s bp;
       s \<leftarrow> add_start s rp;
       Some (rp, s)
     }
   }"

text \<open>\<^verbatim>\<open>mm_init\<close> returns its \<^verbatim>\<open>int\<close> status with the state. The assignment to
  \<^verbatim>\<open>heap_listp\<close> happens before the test against \<open>-1\<close>, so a refused first request
  leaves \<open>-1\<close> in \<^verbatim>\<open>heap_listp\<close>.\<close>

definition mm_init :: "heap_state \<Rightarrow> (32 word \<times> heap_state) option" where
  "mm_init s = do {
     let (p, s) = mem_sbrk s (24 * 4);
     let s = s\<lparr>heap_listp := p\<rparr>;
     if heap_listp s = - 1 then Some (- 1, s)
     else do {
       let s = s\<lparr>heap_start := heap_listp s\<rparr>;
       let s = PUT s (heap_listp s) 0;
       let s = PUT s (heap_listp s + 1 * 4) (ucast (PACK 8 1));
       let s = PUT s (heap_listp s + 2 * 4) (ucast (PACK 8 1));
       let s = fold (\<lambda>i s. PUT s (heap_listp s + (3 + of_nat i) * 4) 0) [0 ..< 20] s;
       let s = PUT s (heap_listp s + 23 * 4) (ucast (PACK 0 3));
       let s = s\<lparr>heap_listp := heap_listp s + 2 * 4\<rparr>;
       (bp, s) \<leftarrow> extend_heap s (256 div 4);
       if bp = 0 then Some (- 1, s) else Some (0, s)
     }
   }"

section \<open>Placement and search\<close>

definition place :: "heap_state \<Rightarrow> ptr \<Rightarrow> size_t \<Rightarrow> heap_state option" where
  "place s bp asize = do {
     let csize = (ucast (GET_SIZE s (HDRP bp)) :: size_t);
     if csize - asize \<ge> 2 * 8 then do {
       s \<leftarrow> del_list s bp;
       let s =
         (if GET_PREV_ALLOC s (HDRP bp) \<noteq> 0 then PUT s (HDRP bp) (ucast (PACK asize 3))
          else PUT s (HDRP bp) (ucast (PACK asize 1)));
       let bp = NEXT_BLKP s bp;
       let s = PUT s (HDRP bp) (ucast (PACK (csize - asize) 2));
       let s = PUT s (FTRP s bp) (ucast (PACK (csize - asize) 2));
       let s = clear_next_prev_alloc s bp;
       add_start s bp
     }
     else do {
       s \<leftarrow> del_list s bp;
       let s =
         (if GET_PREV_ALLOC s (HDRP bp) \<noteq> 0 then PUT s (HDRP bp) (ucast (PACK csize 3))
          else PUT s (HDRP bp) (ucast (PACK csize 1)));
       Some (PUT s (HDRP (NEXT_BLKP s bp))
               (ucast (PACK (ucast (GET s (HDRP (NEXT_BLKP s bp)))) 2)))
     }
   }"

text \<open>The inner loop of \<^verbatim>\<open>find_fit\<close> follows successor offsets until \<^verbatim>\<open>NULL\<close>; on a
  list with a cycle it does not return, which is the value \<open>None\<close>. It yields the
  fitting block, or \<^verbatim>\<open>NULL\<close> when the list is exhausted.\<close>

partial_function (option) find_fit_scan :: "heap_state \<Rightarrow> size_t \<Rightarrow> ptr \<Rightarrow> ptr option" where
  "find_fit_scan s asize bp =
     (if bp \<noteq> 0 then
        (if asize \<le> ucast (GET_SIZE s (HDRP bp)) then Some bp
         else find_fit_scan s asize (get_succ s bp))
      else Some 0)"

declare find_fit_scan.simps [code]

text \<open>The outer loop of \<^verbatim>\<open>find_fit\<close>, \<^verbatim>\<open>for (int i = list_no; i <= 19; i++)\<close>.\<close>

function find_fit_lists :: "heap_state \<Rightarrow> size_t \<Rightarrow> 32 word \<Rightarrow> ptr option" where
  "find_fit_lists s asize i =
     (if word_sle i 19 then
        (case find_fit_scan s asize (get_addr s (GET s (root_slot s i))) of
           None \<Rightarrow> None
         | Some bp \<Rightarrow> if bp \<noteq> 0 then Some bp else find_fit_lists s asize (i + 1))
      else Some 0)"
  by pat_completeness auto

termination find_fit_lists
proof (relation "measure (\<lambda>(s, asize, i). nat (20 - sint i))")
  show "wf (measure (\<lambda>(s, asize, i). nat (20 - sint (i::32 word))))"
    by simp
next
  fix s :: heap_state and asize :: size_t and i :: "32 word" and x :: ptr
  assume "word_sle i 19"
  then have a: "sint i \<le> 19" by (simp add: word_sle_eq)
  have b: "- (2 ^ 31) \<le> sint i" using sint_ge [of i] by simp
  have "signed_take_bit 31 (sint i + 1) = sint i + 1"
    using a b by (intro signed_take_bit_int_eq_self) simp_all
  then have "sint (i + 1) = sint i + 1" by (simp add: sint_word_ariths)
  then show "((s, asize, i + 1), (s, asize, i)) \<in> measure (\<lambda>(s, asize, i). nat (20 - sint i))"
    using a by simp
qed

definition find_fit :: "heap_state \<Rightarrow> size_t \<Rightarrow> ptr option" where
  "find_fit s asize = do {
     list_no \<leftarrow> get_list (ucast asize);
     find_fit_lists s asize list_no
   }"

section \<open>The public operations\<close>

text \<open>The adjusted block size that \<^verbatim>\<open>mm_malloc\<close> computes from the request.\<close>

definition mm_malloc_asize :: "size_t \<Rightarrow> size_t" where
  "mm_malloc_asize sz =
     (if sz \<le> 8 + 4 then 2 * 8 else 8 * ((sz + 4 + (8 - 1)) div 8))"

definition mm_malloc :: "heap_state \<Rightarrow> size_t \<Rightarrow> (ptr \<times> heap_state) option" where
  "mm_malloc s sz = do {
     s \<leftarrow> (if heap_listp s = 0 then map_option snd (mm_init s) else Some s);
     if sz = 0 then Some (0, s)
     else do {
       let asize = mm_malloc_asize sz;
       bp \<leftarrow> find_fit s asize;
       if bp \<noteq> 0 then do {
         s \<leftarrow> place s bp asize;
         Some (bp, s)
       }
       else do {
         let extendsize = max asize 256;
         (bp, s) \<leftarrow> extend_heap s (extendsize div 4);
         if bp = 0 then Some (0, s)
         else do {
           s \<leftarrow> place s bp asize;
           Some (bp, s)
         }
       }
     }
   }"

text \<open>The part of \<^verbatim>\<open>mm_free\<close> after the optional initialisation; \<open>sz\<close> is the block
  size read on entry.\<close>

definition mm_free_block :: "heap_state \<Rightarrow> ptr \<Rightarrow> size_t \<Rightarrow> heap_state option" where
  "mm_free_block s bp sz = do {
     let s =
       (if GET_PREV_ALLOC s (HDRP bp) \<noteq> 0 then
          (let s = PUT s (HDRP bp) (ucast (PACK sz 2))
           in PUT s (FTRP s bp) (ucast (PACK sz 2)))
        else
          (let s = PUT s (HDRP bp) (ucast (PACK sz 0))
           in PUT s (FTRP s bp) (ucast (PACK sz 0))));
     (rt, s) \<leftarrow> coalesce s bp;
     add_start s rt
   }"

definition mm_free :: "heap_state \<Rightarrow> ptr \<Rightarrow> heap_state option" where
  "mm_free s bp =
     (if bp = 0 then Some s
      else do {
        let sz = (ucast (GET_SIZE s (HDRP bp)) :: size_t);
        s \<leftarrow> (if heap_listp s = 0 then map_option snd (mm_init s) else Some s);
        mm_free_block s bp sz
      })"

text \<open>\<^verbatim>\<open>memcpy\<close> of the C library, for regions that do not overlap: the \<open>n\<close> bytes at
  \<open>src\<close> appear at \<open>dst\<close>, every other byte is kept.\<close>

definition memcpy :: "heap_state \<Rightarrow> ptr \<Rightarrow> ptr \<Rightarrow> size_t \<Rightarrow> heap_state" where
  "memcpy s dst src n =
     s\<lparr>mem := (\<lambda>a. if a - dst < n then mem s (src + (a - dst)) else mem s a)\<rparr>"

text \<open>The number of bytes that \<^verbatim>\<open>mm_realloc\<close> hands to \<^verbatim>\<open>memcpy\<close>: its variable
  \<^verbatim>\<open>oldsize\<close> after the comparison with the request.\<close>

definition realloc_oldsize :: "heap_state \<Rightarrow> ptr \<Rightarrow> size_t \<Rightarrow> size_t" where
  "realloc_oldsize s p sz =
     (let oldsize = (ucast (GET_SIZE s (HDRP p)) :: size_t)
      in if sz < oldsize then sz else oldsize)"

definition mm_realloc :: "heap_state \<Rightarrow> ptr \<Rightarrow> size_t \<Rightarrow> (ptr \<times> heap_state) option" where
  "mm_realloc s p sz =
     (if sz = 0 then do { s \<leftarrow> mm_free s p; Some (0, s) }
      else if p = 0 then mm_malloc s sz
      else do {
        (newptr, s) \<leftarrow> mm_malloc s sz;
        if newptr = 0 then Some (0, s)
        else do {
          let oldsize = realloc_oldsize s p sz;
          let s = memcpy s newptr p oldsize;
          s \<leftarrow> mm_free s p;
          Some (newptr, s)
        }
      })"

section \<open>Notions used in the statements\<close>

text \<open>Two 4-byte words at \<open>p\<close> and \<open>q\<close> share no byte.\<close>

definition apart :: "ptr \<Rightarrow> ptr \<Rightarrow> bool" where
  "apart p q \<longleftrightarrow> 4 \<le> unat (q - p) \<and> 4 \<le> unat (p - q)"

text \<open>The class that \<^verbatim>\<open>get_list\<close> returns, as a total function (see \<open>get_list_eq\<close>).\<close>

definition list_class :: "32 word \<Rightarrow> 32 word" where
  "list_class S =
     (if S \<le> 96 then (S - 16) div 8 else if S \<le> 192 then 11
      else if S \<le> 384 then 12 else if S \<le> 768 then 13 else if S \<le> 1536 then 14
      else if S \<le> 3072 then 15 else if S \<le> 6144 then 16 else if S \<le> 12288 then 17
      else if S \<le> 24576 then 18 else 19)"

text \<open>The state before \<^verbatim>\<open>mm_init\<close> has run: both globals are \<^verbatim>\<open>NULL\<close>, the memory
  is zeroed, and the provider's region is empty with a given break and limit.\<close>

definition fresh_state :: "ptr \<Rightarrow> ptr \<Rightarrow> heap_state" where
  "fresh_state brk lim =
     \<lparr>mem = (\<lambda>_. 0), heap_start = 0, heap_listp = 0, mem_brk = brk, mem_max = lim\<rparr>"

text \<open>The byte count that \<^verbatim>\<open>mm_malloc\<close> asks the provider for when no block fits a
  request of \<open>sz\<close> bytes: \<^verbatim>\<open>extend_heap\<close> rounds \<^verbatim>\<open>extendsize/WSIZE\<close> words up to an
  even count.\<close>

definition extension_request :: "size_t \<Rightarrow> size_t" where
  "extension_request sz =
     (let words = max (mm_malloc_asize sz) 256 div 4
      in if words mod 2 \<noteq> 0 then (words + 1) * 4 else words * 4)"

text \<open>The two globals and the provider are the same in both states.\<close>

definition same_globals :: "heap_state \<Rightarrow> heap_state \<Rightarrow> bool" where
  "same_globals s s' \<longleftrightarrow> heap_listp s' = heap_listp s \<and> heap_start s' = heap_start s
     \<and> mem_brk s' = mem_brk s \<and> mem_max s' = mem_max s"

text \<open>A memory given by the words stored at 4-byte aligned addresses; the bytes of all
  other words are 0. Sample heaps are written this way.\<close>

fun heap_lookup :: "(nat \<times> 32 word) list \<Rightarrow> nat \<Rightarrow> 32 word" where
  "heap_lookup [] k = 0"
| "heap_lookup ((a, w) # ws) k = (if k = a then w else heap_lookup ws k)"

fun heap_store :: "(nat \<times> 32 word) list \<Rightarrow> nat \<Rightarrow> 32 word \<Rightarrow> (nat \<times> 32 word) list" where
  "heap_store [] k v = [(k, v)]"
| "heap_store ((a, w) # ws) k v =
     (if k = a then (a, v) # ws else (a, w) # heap_store ws k v)"

definition word_heap :: "(nat \<times> 32 word) list \<Rightarrow> 64 word \<Rightarrow> 8 word" where
  "word_heap ws a =
     ucast (drop_bit (8 * unat (a mod 4)) (heap_lookup ws (unat (a - a mod 4))))"

text \<open>A sample heap: an initialised allocator whose region starts at address 4096, with
  the given words in memory, the given break and the given limit of the provider.\<close>

definition sample_heap :: "(nat \<times> 32 word) list \<Rightarrow> ptr \<Rightarrow> ptr \<Rightarrow> heap_state" where
  "sample_heap ws brk lim =
     \<lparr>mem = word_heap ws, heap_start = 4096, heap_listp = 4104, mem_brk = brk, mem_max = lim\<rparr>"

text \<open>The words \<open>kvs\<close> stored one after the other into the heap \<open>ws\<close>.\<close>

definition store_all :: "(nat \<times> 32 word) list \<Rightarrow> (nat \<times> 32 word) list \<Rightarrow> (nat \<times> 32 word) list" where
  "store_all ws kvs = fold (\<lambda>(k, v) ws. heap_store ws k v) kvs ws"

text \<open>The free list that starts at pointer \<open>p\<close> holds the blocks \<open>bs\<close>, in this order:
  following successor offsets from \<open>p\<close> visits them and ends at \<^verbatim>\<open>NULL\<close>.\<close>

fun fl_chain :: "heap_state \<Rightarrow> ptr \<Rightarrow> ptr list \<Rightarrow> bool" where
  "fl_chain s p [] \<longleftrightarrow> p = 0"
| "fl_chain s p (b # bs) \<longleftrightarrow> p = b \<and> b \<noteq> 0 \<and> fl_chain s (get_succ s b) bs"

text \<open>The first block of list \<open>i\<close>, as \<^verbatim>\<open>find_fit\<close>, \<^verbatim>\<open>add_start\<close> and \<^verbatim>\<open>mm_checkheap\<close> read
  it from the root.\<close>

definition list_head :: "heap_state \<Rightarrow> 32 word \<Rightarrow> ptr" where
  "list_head s i = get_addr s (GET s (root_slot s i))"

text \<open>The test of \<^verbatim>\<open>find_fit\<close>: block \<open>bp\<close> is large enough for \<open>asize\<close> bytes.\<close>

definition fits :: "heap_state \<Rightarrow> size_t \<Rightarrow> ptr \<Rightarrow> bool" where
  "fits s asize bp \<longleftrightarrow> asize \<le> ucast (GET_SIZE s (HDRP bp))"

text \<open>The first block of \<open>bs\<close> that is large enough, \<^verbatim>\<open>NULL\<close> when there is none.\<close>

definition first_fit :: "heap_state \<Rightarrow> size_t \<Rightarrow> ptr list \<Rightarrow> ptr" where
  "first_fit s asize bs = (case find (fits s asize) bs of None \<Rightarrow> 0 | Some b \<Rightarrow> b)"

text \<open>The state in which \<^verbatim>\<open>mm_init\<close> calls \<^verbatim>\<open>extend_heap\<close>, when the provider has granted
  the 24 words: padding, prologue, the 20 roots and the first epilogue are written.\<close>

definition prologue_written :: "heap_state \<Rightarrow> heap_state" where
  "prologue_written s = (let b = mem_brk s;
     s = s\<lparr>mem_brk := b + 96, heap_listp := b, heap_start := b\<rparr>;
     s = PUT s b 0; s = PUT s (b + 4) 9; s = PUT s (b + 8) 9;
     s = fold (\<lambda>i s. PUT s (heap_listp s + (3 + of_nat i) * 4) 0) [0 ..< 20] s;
     s = PUT s (b + 92) 3
     in s\<lparr>heap_listp := b + 8\<rparr>)"

text \<open>The heap that \<^verbatim>\<open>mm_init\<close> leaves at base \<open>b\<close>: a padding word, the prologue header and
  footer (size 8, allocated), the 20 roots, of which only that of class 12 is not empty and
  holds the offset 96 of the one free block, the header and footer of this free block of 256
  bytes (previous block allocated), its two empty links, and the epilogue header (size 0,
  allocated, previous block free).\<close>

definition initial_layout :: "ptr \<Rightarrow> heap_state \<Rightarrow> bool" where
  "initial_layout b s \<longleftrightarrow>
     heap_start s = b \<and> heap_listp s = b + 8 \<and> mem_brk s = b + 352 \<and>
     GET s b = 0 \<and> GET s (b + 4) = 9 \<and> GET s (b + 8) = 9 \<and>
     (\<forall>i < 20. GET s (b + 12 + 4 * of_nat i) = (if i = 12 then 96 else 0)) \<and>
     GET s (b + 92) = 258 \<and> GET s (b + 96) = 0 \<and> GET s (b + 100) = 0 \<and>
     GET s (b + 344) = 258 \<and> GET s (b + 348) = 1"

text \<open>The stores of the first \<^verbatim>\<open>extend_heap\<close>, in the order in which the code performs them.\<close>

definition initial_heap :: "heap_state \<Rightarrow> heap_state" where
  "initial_heap s = (let b = mem_brk s;
     s = (prologue_written s)\<lparr>mem_brk := b + 352\<rparr>;
     s = PUT s (b + 92) 258; s = PUT s (b + 344) 258; s = PUT s (b + 348) 1;
     s = PUT s (b + 92) 258; s = PUT s (b + 344) 258; s = PUT s (b + 348) 1;
     s = PUT s (b + 60) 96; s = PUT s (b + 96) 0
     in PUT s (b + 100) 0)"

section \<open>Size classes\<close>

lemma get_list_loop_step:
  "\<not> (sz \<le> i \<and> i div 2 < sz) \<Longrightarrow> i \<le> 49152 \<Longrightarrow>
   get_list_loop sz i c = get_list_loop sz (i * 2) (c + 1)"
  by (subst get_list_loop.simps) (auto simp add: Let_def)

lemma get_list_loop_hit:
  "sz \<le> i \<Longrightarrow> i div 2 < sz \<Longrightarrow> i \<le> 49152 \<Longrightarrow>
   get_list_loop sz i c = Some (10 + (c + 1))"
  by (subst get_list_loop.simps) (simp add: Let_def)

lemma get_list_loop_class:
  assumes "96 < unat S" "unat S \<le> 49152"
  shows "get_list_loop S 192 0 =
     Some (if unat S \<le> 192 then 11 else if unat S \<le> 384 then 12
       else if unat S \<le> 768 then 13 else if unat S \<le> 1536 then 14
       else if unat S \<le> 3072 then 15 else if unat S \<le> 6144 then 16
       else if unat S \<le> 12288 then 17 else if unat S \<le> 24576 then 18 else 19)"
  using assms
  by (simp add: get_list_loop_hit get_list_loop_step word_le_nat_alt word_less_nat_alt)

lemma least_class:
  assumes "0 < k" "96 * 2 ^ (k - 1) < n" "n \<le> 192 * 2 ^ (k - 1)"
  shows "(LEAST j::nat. 0 < j \<and> (n::nat) \<le> 192 * 2 ^ (j - 1)) = k"
proof (rule Least_equality)
  show "0 < k \<and> n \<le> 192 * 2 ^ (k - 1)" using assms by simp
next
  fix y assume y: "0 < y \<and> n \<le> 192 * 2 ^ (y - 1)"
  show "k \<le> y"
  proof (rule ccontr)
    assume "\<not> k \<le> y"
    then have "y - 1 < k - 1" using y by arith
    then have "Suc (y - 1) \<le> k - 1" by arith
    then have "(2::nat) ^ Suc (y - 1) \<le> 2 ^ (k - 1)" by (rule power_increasing) simp
    then have "(192::nat) * 2 ^ (y - 1) \<le> 96 * 2 ^ (k - 1)" by simp
    with y assms show False by arith
  qed
qed

lemma sint_small: "unat (w::32 word) < 2 ^ 31 \<Longrightarrow> sint w = int (unat w)"
proof -
  assume a: "unat w < 2 ^ 31"
  have "int (unat w) < int (2 ^ 31)" using a by (simp only: of_nat_less_iff)
  then have u: "uint w < 2 ^ 31" by simp
  have z: "0 \<le> uint w" by simp
  have "signed_take_bit 31 (uint w) = uint w"
  proof (rule signed_take_bit_int_eq_self)
    have "- (2 ^ 31) \<le> (0::int)" by simp
    then show "- (2 ^ 31) \<le> uint w" using z by (rule order_trans)
    show "uint w < 2 ^ 31" by (rule u)
  qed
  then show ?thesis by (simp add: sint_uint)
qed

text \<open>
  Claim C2. For every size \<open>S \<ge> 16\<close>, \<^verbatim>\<open>get_list\<close> returns (its loop ends), and the
  \<^verbatim>\<open>int\<close> it returns is \<open>(S - 16) / 8\<close> when \<open>S \<le> 96\<close>, otherwise \<open>10 + k\<close> for the
  smallest positive \<open>k\<close> with \<open>S \<le> 192 * 2 ^ (k - 1)\<close> when \<open>S \<le> 49152\<close>, otherwise 19;
  the result lies in 0..19.
\<close>

theorem get_list_classes:
  assumes "16 \<le> unat S"
  shows "\<exists>r. get_list S = Some r \<and> 0 \<le> sint r \<and> sint r \<le> 19 \<and>
           sint r = (if unat S \<le> 96 then (int (unat S) - 16) div 8
                     else if unat S \<le> 49152
                       then 10 + int (LEAST k. 0 < k \<and> unat S \<le> 192 * 2 ^ (k - 1))
                     else 19)"
proof -
  consider (small) "unat S \<le> 96" | (mid) "96 < unat S" "unat S \<le> 49152"
    | (big) "49152 < unat S"
    by arith
  then show ?thesis
  proof cases
    case small
    have le: "S \<le> 96" using small by (simp add: word_le_nat_alt)
    have "16 \<le> S" using assms by (simp add: word_le_nat_alt)
    then have u: "unat (S - 16) = unat S - 16" by (simp add: unat_sub)
    have d: "unat ((S - 16) div 8) = (unat S - 16) div 8" by (simp add: unat_div u)
    have "unat ((S - 16) div 8) \<le> 10" using small d by arith
    then have s: "sint ((S - 16) div 8) = int (unat ((S - 16) div 8))"
      by (intro sint_small) simp
    have r: "sint ((S - 16) div 8) = (int (unat S) - 16) div 8"
      using s d assms by (simp add: zdiv_int of_nat_diff)
    have b: "0 \<le> (int (unat S) - 16) div 8" "(int (unat S) - 16) div 8 \<le> 19"
      using small assms by arith+
    show ?thesis using small le r b by (simp add: get_list_def)
  next
    case mid
    let ?n = "unat S"
    let ?L = "LEAST k. 0 < k \<and> ?n \<le> 192 * 2 ^ (k - 1)"
    have nle: "\<not> S \<le> 96" and lt: "96 < S" and le: "S \<le> 49152"
      using mid by (simp_all add: word_le_nat_alt word_less_nat_alt)
    consider (c1) "?n \<le> 192" | (c2) "192 < ?n" "?n \<le> 384" | (c3) "384 < ?n" "?n \<le> 768"
      | (c4) "768 < ?n" "?n \<le> 1536" | (c5) "1536 < ?n" "?n \<le> 3072"
      | (c6) "3072 < ?n" "?n \<le> 6144" | (c7) "6144 < ?n" "?n \<le> 12288"
      | (c8) "12288 < ?n" "?n \<le> 24576" | (c9) "24576 < ?n" by arith
    then have "\<exists>k. 0 < k \<and> k \<le> 9 \<and> ?L = k \<and> get_list_loop S 192 0 = Some (10 + of_nat k)"
    proof cases
      case c1 then show ?thesis using mid least_class [of 1 ?n] get_list_loop_class [of S]
        by (intro exI [of _ 1]) simp
    next
      case c2 then show ?thesis using mid least_class [of 2 ?n] get_list_loop_class [of S]
        by (intro exI [of _ 2]) simp
    next
      case c3 then show ?thesis using mid least_class [of 3 ?n] get_list_loop_class [of S]
        by (intro exI [of _ 3]) simp
    next
      case c4 then show ?thesis using mid least_class [of 4 ?n] get_list_loop_class [of S]
        by (intro exI [of _ 4]) simp
    next
      case c5 then show ?thesis using mid least_class [of 5 ?n] get_list_loop_class [of S]
        by (intro exI [of _ 5]) simp
    next
      case c6 then show ?thesis using mid least_class [of 6 ?n] get_list_loop_class [of S]
        by (intro exI [of _ 6]) simp
    next
      case c7 then show ?thesis using mid least_class [of 7 ?n] get_list_loop_class [of S]
        by (intro exI [of _ 7]) simp
    next
      case c8 then show ?thesis using mid least_class [of 8 ?n] get_list_loop_class [of S]
        by (intro exI [of _ 8]) simp
    next
      case c9 then show ?thesis using mid least_class [of 9 ?n] get_list_loop_class [of S]
        by (intro exI [of _ 9]) simp
    qed
    then obtain k where k: "0 < k" "k \<le> 9" "?L = k"
        "get_list_loop S 192 0 = Some (10 + of_nat k)"
      by blast
    have "unat (10 + of_nat k :: 32 word) = 10 + k"
      using k by (simp add: unat_word_ariths unat_of_nat)
    then have "sint (10 + of_nat k :: 32 word) = 10 + int k"
      using k sint_small [of "10 + of_nat k"] by simp
    then show ?thesis using k mid nle lt le by (simp add: get_list_def)
  next
    case big
    then show ?thesis by (simp add: get_list_def word_le_nat_alt word_less_nat_alt)
  qed
qed

theorem get_list_classes_witness:
  "16 \<le> unat (200 :: 32 word) \<and>
   (\<exists>r. get_list 200 = Some r \<and> 0 \<le> sint r \<and> sint r \<le> 19 \<and>
      sint r = (if unat (200 :: 32 word) \<le> 96 then (int (unat (200 :: 32 word)) - 16) div 8
                else if unat (200 :: 32 word) \<le> 49152
                  then 10 + int (LEAST k. 0 < k \<and> unat (200 :: 32 word) \<le> 192 * 2 ^ (k - 1))
                else 19))"
proof -
  have h: "16 \<le> unat (200 :: 32 word)" by simp
  show ?thesis using h get_list_classes [OF h] by blast
qed

section \<open>Casts between the two word sizes\<close>

lemma unat_ucast_up [simp]: "unat (ucast (w::32 word) :: 64 word) = unat w"
proof -
  have "unat w < 2 ^ 32" using unsigned_less [of w, where 'a = nat] by simp
  then have "unat w < 2 ^ 64" by simp
  then show ?thesis by (simp add: unsigned_ucast_eq take_bit_nat_eq_self_iff)
qed

lemma unat_ucast_down: "unat (ucast (w::64 word) :: 32 word) = unat w mod 2 ^ 32"
  by (simp add: unsigned_ucast_eq take_bit_eq_mod)

lemma ucast_down_up:
  "unat (w :: 64 word) < 2 ^ 32 \<Longrightarrow> (ucast (ucast w :: 32 word) :: 64 word) = w"
  by (simp add: word_unat_eq_iff unat_ucast_down)

section \<open>Request sizing\<close>

text \<open>Without wrap-around, that is for requests of at most \<open>2 ^ 64 - 12\<close> bytes, the
  adjusted size is \<open>max 16 (round_up_8 (n + 4))\<close>, a multiple of 8 and at least 16.\<close>

lemma mm_malloc_asize_no_overflow:
  assumes "0 < unat n" "unat n \<le> 2 ^ 64 - 12"
  shows "unat (mm_malloc_asize n) = max 16 (8 * ((unat n + 4 + 7) div 8))"
    and "8 dvd unat (mm_malloc_asize n)" and "16 \<le> unat (mm_malloc_asize n)"
proof -
  have a: "unat (n + 4 + (8 - 1)) = unat n + 11"
    using assms by (simp add: unat_word_ariths)
  have q: "(unat n + 11) div 8 < 2 ^ 61" using assms by simp
  have b: "unat (8 * ((n + 4 + (8 - 1)) div 8)) = 8 * ((unat n + 11) div 8)"
    using q a by (simp add: unat_word_ariths unat_div)
  show u: "unat (mm_malloc_asize n) = max 16 (8 * ((unat n + 4 + 7) div 8))"
  proof (cases "n \<le> 8 + 4")
    case True
    then have "unat n \<le> 12" by (simp add: word_le_nat_alt)
    then have "8 * ((unat n + 4 + 7) div 8) \<le> 16" by arith
    then show ?thesis using True by (simp add: mm_malloc_asize_def max_def)
  next
    case False
    then have "12 < unat n" by (simp add: word_le_nat_alt)
    then have "16 \<le> 8 * ((unat n + 4 + 7) div 8)" by arith
    then show ?thesis using False b by (simp add: mm_malloc_asize_def max_def)
  qed
  show "8 dvd unat (mm_malloc_asize n)" unfolding u by (simp add: max_def)
  show "16 \<le> unat (mm_malloc_asize n)" unfolding u by simp
qed

text \<open>
  Claim C8. For every request of \<open>n > 0\<close> bytes the adjusted size is
  \<open>max 16 (round_up_8 (n + 4))\<close>, a multiple of 8 and at least 16. The sum
  \<^verbatim>\<open>size + WSIZE + (DSIZE-1)\<close> is computed on \<^verbatim>\<open>size_t\<close> and wraps: at the request
  \<open>n = 2 ^ 64 - 1\<close> the code computes the adjusted size 8, which is below 16.
\<close>

theorem mm_malloc_asize_wraps:
  "0 < (18446744073709551615 :: size_t) \<and>
   mm_malloc_asize 18446744073709551615 = 8 \<and>
   \<not> 16 \<le> mm_malloc_asize 18446744073709551615"
  by (simp add: mm_malloc_asize_def)

section \<open>Pointer compression\<close>

text \<open>
  Claim C9. \<^verbatim>\<open>get_offset\<close> maps \<^verbatim>\<open>NULL\<close> to 0 and \<^verbatim>\<open>get_addr\<close> maps 0 to \<^verbatim>\<open>NULL\<close>;
  for a pointer \<open>bp\<close> that is not \<^verbatim>\<open>NULL\<close>, is not \<^verbatim>\<open>heap_start\<close> and whose distance
  from \<^verbatim>\<open>heap_start\<close> fits in 32 bits, \<^verbatim>\<open>get_addr (get_offset bp)\<close> is \<open>bp\<close>.
\<close>

theorem get_offset_get_addr:
  "get_offset s 0 = 0 \<and> get_addr s 0 = 0 \<and>
   (bp \<noteq> 0 \<and> bp \<noteq> heap_start s \<and> heap_start s \<le> bp \<and>
    unat (bp - heap_start s) < 2 ^ 32
      \<longrightarrow> get_addr s (get_offset s bp) = bp)"
proof -
  have "get_addr s (get_offset s bp) = bp"
    if nz: "bp \<noteq> 0" and ne: "bp \<noteq> heap_start s" and lt: "unat (bp - heap_start s) < 2 ^ 32"
  proof -
    let ?d = "bp - heap_start s"
    have rt: "(ucast (ucast ?d :: 32 word) :: 64 word) = ?d"
      using lt by (rule ucast_down_up)
    have "?d \<noteq> 0" using ne by simp
    then have "(ucast ?d :: 32 word) \<noteq> 0" using rt by auto
    then show ?thesis using nz rt by (simp add: get_addr_def get_offset_def)
  qed
  then show ?thesis by (simp add: get_addr_def get_offset_def)
qed

theorem get_offset_get_addr_witness:
  "get_offset \<lparr>mem = (\<lambda>_. 0), heap_start = 4096, heap_listp = 4104, mem_brk = 4448,
       mem_max = 8192\<rparr> 0 = 0 \<and>
   get_addr \<lparr>mem = (\<lambda>_. 0), heap_start = 4096, heap_listp = 4104, mem_brk = 4448,
       mem_max = 8192\<rparr> 0 = 0 \<and>
   (4192 :: ptr) \<noteq> 0 \<and> (4192 :: ptr) \<noteq> 4096 \<and> (4096 :: ptr) \<le> 4192 \<and>
   unat (4192 - 4096 :: ptr) < 2 ^ 32 \<and>
   get_addr \<lparr>mem = (\<lambda>_. 0), heap_start = 4096, heap_listp = 4104, mem_brk = 4448,
       mem_max = 8192\<rparr>
     (get_offset \<lparr>mem = (\<lambda>_. 0), heap_start = 4096, heap_listp = 4104, mem_brk = 4448,
       mem_max = 8192\<rparr> 4192) = 4192"
  using get_offset_get_addr
    [of "\<lparr>mem = (\<lambda>_. 0), heap_start = 4096, heap_listp = 4104, mem_brk = 4448,
       mem_max = 8192\<rparr>" 4192]
  by simp

section \<open>Reading and writing words\<close>

lemma word_bytes:
  "(ucast (ucast v :: 8 word) :: 32 word) OR push_bit 8 (ucast (ucast (drop_bit 8 v) :: 8 word))
     OR push_bit 16 (ucast (ucast (drop_bit 16 v) :: 8 word))
     OR push_bit 24 (ucast (ucast (drop_bit 24 v) :: 8 word)) = (v::32 word)"
proof (rule bit_word_eqI)
  fix n assume n: "n < LENGTH(32)"
  consider "n < 8" | "8 \<le> n" "n < 16" | "16 \<le> n" "n < 24" | "24 \<le> n" by linarith
  then show "bit (ucast (ucast v :: 8 word) OR push_bit 8 (ucast (ucast (drop_bit 8 v) :: 8 word))
       OR push_bit 16 (ucast (ucast (drop_bit 16 v) :: 8 word))
       OR push_bit 24 (ucast (ucast (drop_bit 24 v) :: 8 word)) :: 32 word) n = bit v n"
    using n by cases (auto simp add: bit_simps)
qed

lemma GET_PUT_same [simp]: "GET (PUT s p v) p = v"
  by (simp add: GET_def PUT_def word_bytes)

lemma apart_bytes:
  fixes p q i j :: "64 word"
  assumes "apart p q" "i < 4" "j < 4"
  shows "q + j \<noteq> p + i"
proof
  assume e: "q + j = p + i"
  have "q - p = (q + j) - (p + j)" by simp
  also have "\<dots> = (p + i) - (p + j)" by (simp only: e)
  also have "\<dots> = i - j" by simp
  finally have a: "q - p = i - j" .
  have "p - q = (p + i) - (q + i)" by simp
  also have "\<dots> = (q + j) - (q + i)" by (simp only: e)
  also have "\<dots> = j - i" by simp
  finally have b: "p - q = j - i" .
  have i: "unat i < 4" and j: "unat j < 4" using assms by (simp_all add: word_less_nat_alt)
  show False
  proof (cases "j \<le> i")
    case True
    then have "unat (i - j) = unat i - unat j" by (simp add: unat_sub)
    then have "unat (q - p) < 4" using a i by simp
    then show False using assms(1) unfolding apart_def by arith
  next
    case False
    then have "i \<le> j" by simp
    then have "unat (j - i) = unat j - unat i" by (simp add: unat_sub)
    then have "unat (p - q) < 4" using b j by simp
    then show False using assms(1) unfolding apart_def by arith
  qed
qed

lemma mem_PUT_apart:
  assumes "apart p q" "j < 4"
  shows "mem (PUT s p v) (q + j) = mem s (q + j)"
  using apart_bytes [OF assms(1) _ assms(2), of 0] apart_bytes [OF assms(1) _ assms(2), of 1]
    apart_bytes [OF assms(1) _ assms(2), of 2] apart_bytes [OF assms(1) _ assms(2), of 3]
  by (simp add: PUT_def)

lemma GET_PUT_apart: "apart p q \<Longrightarrow> GET (PUT s p v) q = GET s q"
  using mem_PUT_apart [of p q 0] mem_PUT_apart [of p q 1] mem_PUT_apart [of p q 2]
    mem_PUT_apart [of p q 3]
  by (simp add: GET_def)

lemma apart_sym: "apart p q \<Longrightarrow> apart q p"
  by (simp add: apart_def)

lemma PUT_fields [simp]:
  "heap_start (PUT s p v) = heap_start s" "heap_listp (PUT s p v) = heap_listp s"
  "mem_brk (PUT s p v) = mem_brk s" "mem_max (PUT s p v) = mem_max s"
  by (simp_all add: PUT_def)

lemma GET_upd_fields [simp]:
  "GET (s\<lparr>heap_start := a\<rparr>) p = GET s p" "GET (s\<lparr>heap_listp := a\<rparr>) p = GET s p"
  "GET (s\<lparr>mem_brk := a\<rparr>) p = GET s p" "GET (s\<lparr>mem_max := a\<rparr>) p = GET s p"
  by (simp_all add: GET_def)

lemma PUT_upd_fields [simp]:
  "(PUT s p v)\<lparr>heap_start := a\<rparr> = PUT (s\<lparr>heap_start := a\<rparr>) p v"
  "(PUT s p v)\<lparr>heap_listp := a\<rparr> = PUT (s\<lparr>heap_listp := a\<rparr>) p v"
  "(PUT s p v)\<lparr>mem_brk := a\<rparr> = PUT (s\<lparr>mem_brk := a\<rparr>) p v"
  "(PUT s p v)\<lparr>mem_max := a\<rparr> = PUT (s\<lparr>mem_max := a\<rparr>) p v"
  by (simp_all add: PUT_def)

text \<open>\<^verbatim>\<open>get_list\<close> always returns: its loop starts at 192 and ends at 49152.\<close>

lemma get_list_eq: "get_list S = Some (list_class S)"
proof (cases "96 < S \<and> S \<le> 49152")
  case True
  then have "96 < unat S" "unat S \<le> 49152"
    by (simp_all add: word_le_nat_alt word_less_nat_alt)
  from get_list_loop_class [OF this] True show ?thesis
    by (simp add: get_list_def list_class_def word_le_nat_alt word_less_nat_alt)
next
  case False
  then show ?thesis
    by (auto simp add: get_list_def list_class_def word_le_nat_alt word_less_nat_alt)
qed

section \<open>The globals are kept\<close>

lemma same_globals_refl [simp]: "same_globals s s"
  by (simp add: same_globals_def)

lemma same_globals_PUT [simp]: "same_globals s (PUT s' p v) = same_globals s s'"
  by (simp add: same_globals_def)

lemma del_list_globals: "del_list s bp = Some s' \<Longrightarrow> same_globals s s'"
  by (auto simp add: del_list_def get_list_eq Let_def split: if_splits)

lemma add_start_globals: "add_start s bp = Some s' \<Longrightarrow> same_globals s s'"
  by (auto simp add: add_start_def get_list_eq Let_def split: if_splits)

lemma del_list_total: "\<exists>s'. del_list s bp = Some s'"
  by (simp add: del_list_def get_list_eq Let_def)

lemma add_start_total: "\<exists>s'. add_start s bp = Some s'"
  by (simp add: add_start_def get_list_eq Let_def)

lemma clear_next_fields [simp]:
  "heap_start (clear_next_prev_alloc s p) = heap_start s"
  "heap_listp (clear_next_prev_alloc s p) = heap_listp s"
  "mem_brk (clear_next_prev_alloc s p) = mem_brk s"
  "mem_max (clear_next_prev_alloc s p) = mem_max s"
  by (simp_all add: clear_next_prev_alloc_def)

lemma coalesce_globals: "coalesce s bp = Some (rp, s') \<Longrightarrow> same_globals s s'"
  unfolding coalesce_def Let_def
  by (auto split: if_splits Option.bind_splits dest!: del_list_globals
      simp add: same_globals_def)

lemma coalesce_total: "\<exists>r. coalesce s bp = Some r"
proof -
  obtain s1 where s1: "del_list s (NEXT_BLKP s bp) = Some s1" using del_list_total by blast
  obtain s2 where s2: "del_list s (PREV_BLKP s bp) = Some s2" using del_list_total by blast
  obtain s3 where s3: "del_list s2 (NEXT_BLKP s2 bp) = Some s3" using del_list_total by blast
  show ?thesis unfolding coalesce_def Let_def by (simp add: s1 s2 s3)
qed

lemma extend_heap_total: "\<exists>r. extend_heap s w = Some r"
proof -
  have "\<exists>r. (coalesce s' bp \<bind> (\<lambda>(rp, s). add_start s rp \<bind> (\<lambda>s. Some (rp, s)))) = Some r"
    for s' bp
  proof -
    obtain rp s1 where "coalesce s' bp = Some (rp, s1)"
      using coalesce_total by (metis surj_pair)
    moreover obtain s2 where "add_start s1 rp = Some s2" using add_start_total by blast
    ultimately show ?thesis by simp
  qed
  then show ?thesis
    unfolding extend_heap_def Let_def by (simp split: prod.split)
qed

lemma extend_heap_globals:
  "extend_heap s w = Some (bp, s') \<Longrightarrow>
   heap_listp s' = heap_listp s \<and> heap_start s' = heap_start s \<and> mem_max s' = mem_max s"
  unfolding extend_heap_def Let_def mem_sbrk_def
  by (auto split: if_splits Option.bind_splits prod.splits
      dest!: coalesce_globals add_start_globals simp add: same_globals_def)

lemma fold_PUT_fields [simp]:
  "heap_listp (fold (\<lambda>i s. PUT s (a s i) (v s i)) xs s) = heap_listp s"
  "heap_start (fold (\<lambda>i s. PUT s (a s i) (v s i)) xs s) = heap_start s"
  "mem_brk (fold (\<lambda>i s. PUT s (a s i) (v s i)) xs s) = mem_brk s"
  "mem_max (fold (\<lambda>i s. PUT s (a s i) (v s i)) xs s) = mem_max s"
  by (induction xs arbitrary: s) simp_all

text \<open>Whatever \<^verbatim>\<open>mm_init\<close> does, it leaves \<^verbatim>\<open>heap_listp\<close> set: to \<open>-1\<close> when the first
  request is refused, and to the start of the region plus 8 otherwise.\<close>

lemma mm_init_heap_listp:
  assumes "mm_init s = Some (r, s')"
  shows "heap_listp s' \<noteq> 0"
proof (cases "unat (mem_brk s) + 96 \<le> unat (mem_max s)")
  case False
  then show ?thesis using assms by (auto simp add: mm_init_def mem_sbrk_def Let_def)
next
  case True
  have "unat (mem_max s) < 2 ^ 64"
    using unsigned_less [of "mem_max s", where 'a = nat] by simp
  then have b: "unat (mem_brk s) + 8 < 2 ^ 64" using True by simp
  have "unat (mem_brk s + 8) = unat (mem_brk s) + 8"
    using b by (simp add: unat_word_ariths)
  then have nz: "mem_brk s + 8 \<noteq> 0" by (metis add_is_0 unat_0 zero_neq_numeral)
  show ?thesis using assms True nz
    unfolding mm_init_def Let_def mem_sbrk_def
    by (auto split: if_splits Option.bind_splits prod.splits dest!: extend_heap_globals)
qed

section \<open>Running the operations on sample heaps\<close>

lemma heap_lookup_store:
  "heap_lookup (heap_store ws k v) j = (if j = k then v else heap_lookup ws j)"
  by (induction ws k v rule: heap_store.induct) auto

lemma mod4_and3: "(a::64 word) mod 4 = a AND 3"
  using take_bit_eq_mod [of 2 a] take_bit_eq_mask [of 2 a] by (simp add: mask_eq_exp_minus_1)

lemma aligned_add_mod:
  fixes p k :: "64 word"
  assumes "p mod 4 = 0" "k < 4"
  shows "(p + k) mod 4 = k"
proof -
  have pm: "unat p mod 4 = 0" using assms(1) by (simp add: word_unat_eq_iff unat_mod)
  have k: "unat k < 4" using assms(2) by (simp add: word_less_nat_alt)
  have "unat p < 18446744073709551616" using unsigned_less [of p, where 'a = nat] by simp
  then have "unat p + unat k < 18446744073709551616" using pm k by presburger
  then have "unat p + unat k < 2 ^ 64" by simp
  then have "unat (p + k) = unat p + unat k" by (simp add: unat_word_ariths)
  then have "unat ((p + k) mod 4) = unat k"
    using pm k by (simp add: unat_mod mod_add_left_eq [symmetric])
  then show ?thesis by (simp add: word_unat_eq_iff)
qed

lemma mod4_less: "(a :: 64 word) mod 4 < 4"
  by (simp add: word_less_nat_alt unat_mod)

lemma word_cases4: "(k :: 64 word) < 4 \<Longrightarrow> k = 0 \<or> k = 1 \<or> k = 2 \<or> k = 3"
proof -
  assume "k < 4"
  then have "unat k < 4" by (simp add: word_less_nat_alt)
  then have "unat k = 0 \<or> unat k = 1 \<or> unat k = 2 \<or> unat k = 3" by arith
  then show ?thesis by (auto simp add: word_unat_eq_iff)
qed

lemma word_heap_bytes:
  assumes "p mod 4 = 0"
  shows "word_heap ws p = ucast (heap_lookup ws (unat p))"
    "word_heap ws (p + 1) = ucast (drop_bit 8 (heap_lookup ws (unat p)))"
    "word_heap ws (p + 2) = ucast (drop_bit 16 (heap_lookup ws (unat p)))"
    "word_heap ws (p + 3) = ucast (drop_bit 24 (heap_lookup ws (unat p)))"
  using assms aligned_add_mod [OF assms, of 1] aligned_add_mod [OF assms, of 2]
    aligned_add_mod [OF assms, of 3]
  by (simp_all add: word_heap_def)

lemma GET_word_heap:
  assumes "p AND 3 = 0"
  shows "GET \<lparr>mem = word_heap ws, heap_start = a, heap_listp = b, mem_brk = c, mem_max = d\<rparr> p
     = heap_lookup ws (unat p)"
proof -
  have "p mod 4 = 0" using assms by (simp add: mod4_and3)
  then show ?thesis by (simp add: GET_def word_heap_bytes word_bytes)
qed

lemma word_heap_update:
  assumes "p mod 4 = 0"
  shows "(word_heap ws)(p := ucast v, p + 1 := ucast (drop_bit 8 v),
           p + 2 := ucast (drop_bit 16 v), p + 3 := ucast (drop_bit 24 v))
         = word_heap (heap_store ws (unat p) v)"
proof
  fix a :: "64 word"
  let ?L = "(word_heap ws)(p := ucast v, p + 1 := ucast (drop_bit 8 v),
           p + 2 := ucast (drop_bit 16 v), p + 3 := ucast (drop_bit 24 v))"
  show "?L a = word_heap (heap_store ws (unat p) v) a"
  proof (cases "a - a mod 4 = p")
    case True
    then have a: "a = p + a mod 4" by (metis diff_add_cancel)
    from word_cases4 [OF mod4_less [of a]] show ?thesis
    proof (elim disjE)
      assume k: "a mod 4 = 0"
      then have "a = p" using a by simp
      then show ?thesis using assms by (simp add: word_heap_def heap_lookup_store)
    next
      assume k: "a mod 4 = 1"
      then have e: "a = p + 1" using a by simp
      show ?thesis unfolding e using aligned_add_mod [OF assms, of 1]
        by (simp add: word_heap_def heap_lookup_store)
    next
      assume k: "a mod 4 = 2"
      then have e: "a = p + 2" using a by simp
      show ?thesis unfolding e using aligned_add_mod [OF assms, of 2]
        by (simp add: word_heap_def heap_lookup_store)
    next
      assume k: "a mod 4 = 3"
      then have e: "a = p + 3" using a by simp
      show ?thesis unfolding e using aligned_add_mod [OF assms, of 3]
        by (simp add: word_heap_def heap_lookup_store)
    qed
  next
    case False
    have ne: "a \<noteq> p + k" if "k < 4" for k
    proof
      assume "a = p + k"
      then have "a - a mod 4 = p" using aligned_add_mod [OF assms that] by simp
      then show False using False by simp
    qed
    have "a \<noteq> p" "a \<noteq> p + 1" "a \<noteq> p + 2" "a \<noteq> p + 3"
      using ne [of 0] ne [of 1] ne [of 2] ne [of 3] by simp_all
    then show ?thesis
      using False by (simp add: word_heap_def heap_lookup_store word_unat_eq_iff)
  qed
qed

lemma PUT_word_heap:
  assumes "p AND 3 = 0"
  shows "PUT \<lparr>mem = word_heap ws, heap_start = a, heap_listp = b, mem_brk = c, mem_max = d\<rparr> p v
     = \<lparr>mem = word_heap (heap_store ws (unat p) v), heap_start = a, heap_listp = b,
        mem_brk = c, mem_max = d\<rparr>"
proof -
  have "p mod 4 = 0" using assms by (simp add: mod4_and3)
  then show ?thesis by (simp add: PUT_def word_heap_update)
qed

lemma zero_mem_word_heap: "(\<lambda>_. 0) = word_heap []"
  by (rule ext) (simp add: word_heap_def)

lemma upt_20:
  "[0..<20] = [0, 1, 2, 3, 4, 5, 6, 7, 8, 9, 10, 11, 12, 13, 14, 15, 16, 17, 18, 19]"
  by (simp add: upt_rec)

lemma heap_lookup_cong: "k = k' \<Longrightarrow> heap_lookup ws k = heap_lookup ws k'"
  by simp

lemma bind_weak_cong: "x = y \<Longrightarrow> Option.bind x f = Option.bind y f"
  by simp

lemmas run_defs = mm_malloc_def mm_init_def mem_sbrk_def extend_heap_def coalesce_def
  add_start_def del_list_def place_def find_fit_def mm_free_def mm_free_block_def
  mm_realloc_def realloc_oldsize_def extension_request_def
  clear_next_prev_alloc_def get_list_eq list_class_def root_slot_def HDRP_def FTRP_def
  NEXT_BLKP_def PREV_BLKP_def GET_SIZE_def GET_ALLOC_def GET_PREV_ALLOC_def PACK_def
  get_addr_def get_offset_def get_pred_def get_succ_def PRED_def SUCC_def
  mm_malloc_asize_def find_fit_scan.simps find_fit_lists.simps
  fresh_state_def upt_20 Let_def word_sle_eq
  GET_word_heap PUT_word_heap zero_mem_word_heap heap_lookup_store

lemmas run_congs = bind_weak_cong let_weak_cong prod.case_cong_weak option.case_cong_weak
  if_weak_cong heap_lookup_cong

lemma heap_lookup_unfold: "ws = xs \<Longrightarrow> heap_lookup ws k = heap_lookup xs k"
  by simp

section \<open>First fit\<close>

lemma find_append_first:
  "find P (xs @ ys) = (case find P xs of None \<Rightarrow> find P ys | Some x \<Rightarrow> Some x)"
  by (induction xs) simp_all

lemma find_SomeD: "find P xs = Some x \<Longrightarrow> x \<in> set xs \<and> P x"
  by (induction xs) (auto split: if_splits)

lemma fl_chain_nonzero: "fl_chain s p bs \<Longrightarrow> b \<in> set bs \<Longrightarrow> b \<noteq> 0"
  by (induction bs arbitrary: p) auto

text \<open>On a list that ends, the inner loop returns, with the first fit of that list.\<close>

lemma find_fit_scan_chain:
  "fl_chain s p bs \<Longrightarrow> find_fit_scan s asize p = Some (first_fit s asize bs)"
proof (induction bs arbitrary: p)
  case Nil
  then show ?case by (subst find_fit_scan.simps) (simp add: first_fit_def)
next
  case (Cons b bs)
  then have p: "p = b" "b \<noteq> 0" and ch: "fl_chain s (get_succ s b) bs" by simp_all
  show ?case
  proof (cases "fits s asize b")
    case True
    then show ?thesis using p
      by (subst find_fit_scan.simps) (simp add: first_fit_def fits_def)
  next
    case False
    then show ?thesis using p Cons.IH [OF ch]
      by (subst find_fit_scan.simps) (simp add: first_fit_def fits_def)
  qed
qed

lemma first_fit_zero_iff:
  "fl_chain s p bs \<Longrightarrow> first_fit s asize bs = 0 \<longleftrightarrow> find (fits s asize) bs = None"
proof -
  assume ch: "fl_chain s p bs"
  show ?thesis
  proof (cases "find (fits s asize) bs")
    case None
    then show ?thesis by (simp add: first_fit_def)
  next
    case (Some b)
    then have "b \<in> set bs" using find_SomeD by fastforce
    then have "b \<noteq> 0" using ch fl_chain_nonzero by blast
    then show ?thesis using Some by (simp add: first_fit_def)
  qed
qed

lemma sint_of_nat_small: "n \<le> 20 \<Longrightarrow> sint (of_nat n :: 32 word) = int n"
proof -
  assume n: "n \<le> 20"
  then have "unat (of_nat n :: 32 word) = n" by (simp add: unat_of_nat)
  then show ?thesis using n sint_small [of "of_nat n"] by simp
qed

lemma find_fit_lists_chains:
  assumes "list_all2 (\<lambda>i bs. fl_chain s (list_head s (of_nat i)) bs) [n ..< 20] Ls" "n \<le> 20"
  shows "find_fit_lists s asize (of_nat n) = Some (first_fit s asize (concat Ls))"
  using assms
proof (induction "20 - n" arbitrary: n Ls)
  case 0
  then have n: "n = 20" by simp
  then have "Ls = []" using "0.prems" by simp
  moreover have "\<not> word_sle (20 :: 32 word) 19" by simp
  ultimately show ?case using n by (subst find_fit_lists.simps) (simp add: first_fit_def)
next
  case (Suc k)
  then have n: "n < 20" by simp
  then have upt: "[n ..< 20] = n # [Suc n ..< 20]" by (simp add: upt_conv_Cons)
  obtain L Ls' where Ls: "Ls = L # Ls'" and L: "fl_chain s (list_head s (of_nat n)) L"
    and rest: "list_all2 (\<lambda>i bs. fl_chain s (list_head s (of_nat i)) bs) [Suc n ..< 20] Ls'"
    using Suc.prems(1) unfolding upt by (auto simp add: list_all2_Cons1)
  have sle: "word_sle (of_nat n :: 32 word) 19"
    using n sint_of_nat_small [of n] by (simp add: word_sle_eq)
  have scan: "find_fit_scan s asize (get_addr s (GET s (root_slot s (of_nat n))))
      = Some (first_fit s asize L)"
    using find_fit_scan_chain [OF L] by (simp add: list_head_def)
  have IH: "find_fit_lists s asize (of_nat (Suc n)) = Some (first_fit s asize (concat Ls'))"
    using Suc.hyps(1) [of "Suc n" Ls'] Suc.hyps(2) rest n by simp
  show ?case
  proof (cases "find (fits s asize) L")
    case None
    then have z: "first_fit s asize L = 0" by (simp add: first_fit_def)
    have "first_fit s asize (concat Ls) = first_fit s asize (concat Ls')"
      using None Ls by (simp add: first_fit_def find_append_first)
    then show ?thesis using sle scan z IH
      by (subst find_fit_lists.simps) (simp add: add.commute)
  next
    case (Some b)
    then have nz: "first_fit s asize L \<noteq> 0" using first_fit_zero_iff [OF L] by simp
    have "first_fit s asize (concat Ls) = first_fit s asize L"
      using Some Ls by (simp add: first_fit_def find_append_first)
    then show ?thesis using sle scan nz
      by (subst find_fit_lists.simps) simp
  qed
qed

lemma list_class_nonneg: "0 \<le> sint (list_class S)"
proof -
  have "unat (list_class S) < 2 ^ 31"
  proof (cases "S \<le> 96")
    case True
    have "unat ((S - 16) div 8) = unat (S - 16) div 8" by (simp add: unat_div)
    moreover have "unat (S - 16) < 2 ^ 32"
      using unsigned_less [of "S - 16", where 'a = nat] by simp
    ultimately have "unat ((S - 16) div 8) < 2 ^ 31" by simp
    then show ?thesis using True by (simp add: list_class_def)
  next
    case False
    then show ?thesis by (simp add: list_class_def)
  qed
  then show ?thesis using sint_small [of "list_class S"] by simp
qed

text \<open>The search over the lists from the class of the request up to list 19.\<close>

lemma find_fit_chains:
  assumes "get_list (ucast asize) = Some c"
    and "list_all2 (\<lambda>i bs. fl_chain s (list_head s (of_nat i)) bs) [nat (sint c) ..< 20] Ls"
  shows "find_fit s asize = Some (first_fit s asize (concat Ls))"
proof -
  have c: "c = list_class (ucast asize)" using assms(1) by (simp add: get_list_eq)
  have nn: "0 \<le> sint c" unfolding c by (rule list_class_nonneg)
  show ?thesis
  proof (cases "sint c \<le> 19")
    case True
    let ?n = "nat (sint c)"
    have n: "?n \<le> 20" using True by simp
    have "(of_nat ?n :: 32 word) = word_of_int (sint c)" using nn by (simp add: of_nat_nat)
    then have cn: "(of_nat ?n :: 32 word) = c" by simp
    show ?thesis
      using find_fit_lists_chains [OF assms(2) n, of asize] assms(1)
      by (simp add: find_fit_def cn)
  next
    case False
    then have "[nat (sint c) ..< 20] = []" by simp
    then have "Ls = []" using assms(2) by simp
    moreover have "\<not> word_sle c 19" using False by (simp add: word_sle_eq)
    then have "find_fit_lists s asize c = Some 0" by (subst find_fit_lists.simps) simp
    ultimately show ?thesis using assms(1) by (simp add: find_fit_def first_fit_def)
  qed
qed

lemma first_fit_none_iff:
  assumes "list_all2 (\<lambda>i bs. fl_chain s (list_head s (of_nat i)) bs) ns Ls"
  shows "first_fit s asize (concat Ls) = 0 \<longleftrightarrow> (\<forall>b \<in> set (concat Ls). \<not> fits s asize b)"
proof -
  have nz: "b \<noteq> 0" if mem: "b \<in> set (concat Ls)" for b
  proof -
    obtain L where L: "L \<in> set Ls" "b \<in> set L" using mem by auto
    then obtain i where i: "i < length Ls" "Ls ! i = L" by (auto simp add: in_set_conv_nth)
    have "fl_chain s (list_head s (of_nat (ns ! i))) (Ls ! i)"
      using list_all2_nthD2 [OF assms i(1)] .
    then show ?thesis using L(2) i(2) fl_chain_nonzero by blast
  qed
  show ?thesis
  proof (cases "find (fits s asize) (concat Ls)")
    case None
    then have "\<forall>b \<in> set (concat Ls). \<not> fits s asize b"
      unfolding find_None_iff by blast
    then show ?thesis using None by (simp add: first_fit_def)
  next
    case (Some b)
    then have b: "b \<in> set (concat Ls)" "fits s asize b"
      using find_SomeD by fastforce+
    then show ?thesis using Some nz [OF b(1)] by (auto simp add: first_fit_def)
  qed
qed

text \<open>
  Claim C7. \<^verbatim>\<open>find_fit\<close> starts at the list of the class of the request and scans each
  list from its head; it returns the first block it meets whose size is at least the
  request, goes on to the next class when a list is exhausted, and returns \<^verbatim>\<open>NULL\<close>
  exactly when no block of these lists is large enough. Here \<open>Ls\<close> are the lists of the
  classes from that of the request up to 19, each ending in \<^verbatim>\<open>NULL\<close>.
\<close>

theorem find_fit_first_fit:
  assumes "get_list (ucast asize) = Some c"
    and "list_all2 (\<lambda>i bs. fl_chain s (list_head s (of_nat i)) bs) [nat (sint c) ..< 20] Ls"
  shows "find_fit s asize = Some (first_fit s asize (concat Ls)) \<and>
         (find_fit s asize = Some 0 \<longleftrightarrow> (\<forall>b \<in> set (concat Ls). \<not> fits s asize b))"
  using find_fit_chains [OF assms] first_fit_none_iff [OF assms(2), of asize] by simp

section \<open>Initialisation\<close>

lemma apart_add_left: "apart (p + a) (p + b) = apart a b"
  by (simp add: apart_def)

lemma apart_add_left0: "apart p (p + b) = apart 0 b" "apart (p + a) p = apart a 0"
  by (simp_all add: apart_def)

lemma apart_numeral:
  "apart (numeral m) (numeral n) \<longleftrightarrow> 4 \<le> unat (numeral n - numeral m :: 64 word) \<and> 4 \<le> unat (numeral m - numeral n :: 64 word)"
  "apart 0 (numeral n) \<longleftrightarrow> 4 \<le> unat (numeral n :: 64 word) \<and> 4 \<le> unat (- numeral n :: 64 word)"
  "apart (numeral m) 0 \<longleftrightarrow> 4 \<le> unat (- numeral m :: 64 word) \<and> 4 \<le> unat (numeral m :: 64 word)"
  by (simp_all add: apart_def)

lemmas apart_offsets = apart_add_left apart_add_left0 apart_numeral

lemma num_add_comm: "numeral n + mem_brk s = mem_brk s + numeral n"
  by simp

lemma unat_plus_small:
  "unat (b :: 64 word) + k \<le> unat (m :: 64 word) \<Longrightarrow> unat (b + of_nat k) = unat b + k"
proof -
  assume a: "unat b + k \<le> unat m"
  have "unat m < 2 ^ 64" using unsigned_less [of m, where 'a = nat] by simp
  then have "unat b + k < 2 ^ 64" using a by simp
  moreover have "k < 2 ^ 64" using calculation by simp
  ultimately show ?thesis by (simp add: unat_word_ariths unat_of_nat)
qed

lemma not_minus_one:
  assumes "unat (b :: 64 word) + 1 \<le> unat (m :: 64 word)"
  shows "b \<noteq> - 1"
proof
  have m1: "unat (- 1 :: 64 word) = 18446744073709551615"
    by (simp add: unsigned_minus_1_eq_mask mask_eq_exp_minus_1)
  have mx: "unat m < 18446744073709551616"
    using unsigned_less [of m, where 'a = nat] by simp
  assume "b = - 1"
  then have "unat b = unat (- 1 :: 64 word)" by (rule arg_cong)
  then have "unat b = 18446744073709551615" by (simp only: m1)
  then show False using assms mx by simp
qed

lemma mm_init_step1:
  assumes "unat (mem_brk s) + 96 \<le> unat (mem_max s)"
  shows "mm_init s = (extend_heap (prologue_written s) 64 \<bind>
           (\<lambda>(bp, s). if bp = 0 then Some (- 1, s) else Some (0, s)))"
proof -
  have nm1: "mem_brk s \<noteq> - 1" using assms by (intro not_minus_one [of _ "mem_max s"]) simp
  show ?thesis using assms nm1
    by (simp add: mm_init_def mem_sbrk_def prologue_written_def PACK_def Let_def)
qed

lemma prologue_written_fields:
  "heap_start (prologue_written s) = mem_brk s"
  "heap_listp (prologue_written s) = mem_brk s + 8"
  "mem_brk (prologue_written s) = mem_brk s + 96"
  "mem_max (prologue_written s) = mem_max s"
  by (simp_all add: prologue_written_def Let_def)

lemma prologue_written_words:
  "GET (prologue_written s) (mem_brk s) = 0"
  "GET (prologue_written s) (mem_brk s + 4) = 9"
  "GET (prologue_written s) (mem_brk s + 8) = 9"
  "GET (prologue_written s) (mem_brk s + 92) = 3"
  "GET (prologue_written s) (mem_brk s + 60) = 0"
  by (simp_all add: prologue_written_def Let_def upt_20 GET_PUT_apart apart_offsets)

lemma prologue_written_root_words:
  "GET (prologue_written s) (mem_brk s + 12) = 0"
  "GET (prologue_written s) (mem_brk s + 16) = 0"
  "GET (prologue_written s) (mem_brk s + 20) = 0"
  "GET (prologue_written s) (mem_brk s + 24) = 0"
  "GET (prologue_written s) (mem_brk s + 28) = 0"
  "GET (prologue_written s) (mem_brk s + 32) = 0"
  "GET (prologue_written s) (mem_brk s + 36) = 0"
  "GET (prologue_written s) (mem_brk s + 40) = 0"
  "GET (prologue_written s) (mem_brk s + 44) = 0"
  "GET (prologue_written s) (mem_brk s + 48) = 0"
  "GET (prologue_written s) (mem_brk s + 52) = 0"
  "GET (prologue_written s) (mem_brk s + 56) = 0"
  "GET (prologue_written s) (mem_brk s + 60) = 0"
  "GET (prologue_written s) (mem_brk s + 64) = 0"
  "GET (prologue_written s) (mem_brk s + 68) = 0"
  "GET (prologue_written s) (mem_brk s + 72) = 0"
  "GET (prologue_written s) (mem_brk s + 76) = 0"
  "GET (prologue_written s) (mem_brk s + 80) = 0"
  "GET (prologue_written s) (mem_brk s + 84) = 0"
  "GET (prologue_written s) (mem_brk s + 88) = 0"
  by (simp_all add: prologue_written_def Let_def upt_20 GET_PUT_apart apart_offsets num_add_comm)

lemma prologue_written_roots:
  "i < 20 \<Longrightarrow> GET (prologue_written s) (mem_brk s + 12 + 4 * of_nat i) = 0"
proof -
  assume "i < 20"
  then have "i \<in> set [0 ..< 20]" by simp
  then have "i \<in> {0, 1, 2, 3, 4, 5, 6, 7, 8, 9, 10, 11, 12, 13, 14, 15, 16, 17, 18, 19}"
    unfolding upt_20 by simp
  then show ?thesis
    by (auto simp add: prologue_written_def Let_def upt_20 GET_PUT_apart apart_offsets
        num_add_comm)
qed

lemma extend_heap_first:
  assumes "unat (mem_brk s) + 352 \<le> unat (mem_max s)"
  shows "extend_heap (prologue_written s) 64 = Some (mem_brk s + 96, initial_heap s)"
proof -
  let ?b = "mem_brk s"
  have u96: "unat (?b + 96) = unat ?b + 96"
    using unat_plus_small [of ?b 96 "mem_max s"] assms by simp
  have nm2: "?b + 96 \<noteq> - 1"
    using assms u96 by (intro not_minus_one [of _ "mem_max s"]) simp
  have nz: "?b + 96 \<noteq> 0" using u96 by (metis add_is_0 unat_0 zero_neq_numeral)
  have sb: "mem_sbrk (prologue_written s) 256 = (?b + 96, (prologue_written s)\<lparr>mem_brk := ?b + 352\<rparr>)"
    using assms u96 by (simp add: mem_sbrk_def prologue_written_fields)
  show ?thesis
    using nm2 nz
    by (simp add: num_add_comm extend_heap_def sb prologue_written_fields prologue_written_words
      coalesce_def add_start_def clear_next_prev_alloc_def get_list_eq list_class_def
      root_slot_def get_addr_def get_offset_def initial_heap_def
      HDRP_def FTRP_def NEXT_BLKP_def GET_SIZE_def GET_ALLOC_def
      GET_PREV_ALLOC_def PACK_def Let_def GET_PUT_apart apart_offsets
      cong: run_congs)
qed

lemma mm_init_granted:
  assumes "unat (mem_brk s) + 352 \<le> unat (mem_max s)"
  shows "mm_init s = Some (0, initial_heap s)"
proof -
  let ?b = "mem_brk s"
  have u96: "unat (?b + 96) = unat ?b + 96"
    using unat_plus_small [of ?b 96 "mem_max s"] assms by simp
  have nz: "?b + 96 \<noteq> 0" using u96 by (metis add_is_0 unat_0 zero_neq_numeral)
  have "unat ?b + 96 \<le> unat (mem_max s)" using assms by simp
  then show ?thesis using nz by (simp add: mm_init_step1 extend_heap_first [OF assms])
qed

lemma initial_heap_layout: "initial_layout (mem_brk s) (initial_heap s)"
proof -
  have roots: "GET (initial_heap s) (mem_brk s + 12 + 4 * of_nat i) = (if i = 12 then 96 else 0)"
    if "i < 20" for i
  proof -
    have "i \<in> set [0 ..< 20]" using that by simp
    then have "i \<in> {0, 1, 2, 3, 4, 5, 6, 7, 8, 9, 10, 11, 12, 13, 14, 15, 16, 17, 18, 19}"
      unfolding upt_20 by simp
    then show ?thesis
      by (auto simp add: initial_heap_def Let_def GET_PUT_apart apart_offsets num_add_comm
          prologue_written_root_words)
  qed
  have rest: "heap_start (initial_heap s) = mem_brk s" "heap_listp (initial_heap s) = mem_brk s + 8"
    "mem_brk (initial_heap s) = mem_brk s + 352"
    "GET (initial_heap s) (mem_brk s) = 0" "GET (initial_heap s) (mem_brk s + 4) = 9"
    "GET (initial_heap s) (mem_brk s + 8) = 9" "GET (initial_heap s) (mem_brk s + 92) = 258"
    "GET (initial_heap s) (mem_brk s + 96) = 0" "GET (initial_heap s) (mem_brk s + 100) = 0"
    "GET (initial_heap s) (mem_brk s + 344) = 258" "GET (initial_heap s) (mem_brk s + 348) = 1"
    by (simp_all add: initial_heap_def Let_def GET_PUT_apart apart_offsets prologue_written_fields
        prologue_written_words num_add_comm)
  show ?thesis
    unfolding initial_layout_def using roots rest by simp
qed

end
